theory Spec2Isabelle
  imports Main "HOL-Library.Sublist"
begin

section \<open>Strings\<close>

text \<open>
  A Python \<open>str\<close> is a sequence of code points. A \<^typ>\<open>char\<close> is read here as a
  code point below 256 (the Latin-1 range), and the character classes of \<open>re\<close> and of
  \<open>str.strip\<close>, \<open>str.lower\<close> are written out on that range.
\<close>

definition code_point :: "char \<Rightarrow> nat" where
  "code_point c = of_char c"

text \<open>
  The characters for which \<open>str.isspace\<close> holds. The class \<open>\s\<close> of a \<open>str\<close>
  pattern and \<open>str.strip()\<close> both use this test.
\<close>

definition is_space :: "char \<Rightarrow> bool" where
  "is_space c =
     (let n = code_point c
      in (9 \<le> n \<and> n \<le> 13) \<or> (28 \<le> n \<and> n \<le> 32) \<or> n = 133 \<or> n = 160)"

text \<open>The class \<open>[0-9]\<close>.\<close>

definition is_digit :: "char \<Rightarrow> bool" where
  "is_digit c = (let n = code_point c in 48 \<le> n \<and> n \<le> 57)"

text \<open>The classes \<open>[A-Z]\<close> and \<open>[a-z]\<close>.\<close>

definition is_upper :: "char \<Rightarrow> bool" where
  "is_upper c = (let n = code_point c in 65 \<le> n \<and> n \<le> 90)"

definition is_lower :: "char \<Rightarrow> bool" where
  "is_lower c = (let n = code_point c in 97 \<le> n \<and> n \<le> 122)"

text \<open>
  \<open>str.lower\<close>, one character at a time: below 256 the upper-case letters are
  \<open>A\<close>..\<open>Z\<close> and U+00C0..U+00DE without the multiplication sign U+00D7, each 32 below
  its lower-case letter.
\<close>

definition lower_char :: "char \<Rightarrow> char" where
  "lower_char c =
     (let n = code_point c
      in if (65 \<le> n \<and> n \<le> 90) \<or> (192 \<le> n \<and> n \<le> 222 \<and> n \<noteq> 215)
         then char_of (n + 32) else c)"

definition lower :: "string \<Rightarrow> string" where
  "lower s = map lower_char s"

text \<open>\<open>str.strip()\<close>: leading and trailing white space removed.\<close>

definition strip :: "string \<Rightarrow> string" where
  "strip s = rev (dropWhile is_space (rev (dropWhile is_space s)))"

text \<open>\<open>s.endswith(t)\<close>.\<close>

definition endswith :: "string \<Rightarrow> string \<Rightarrow> bool" where
  "endswith s t = suffix t s"

text \<open>\<open>t in s\<close> for two strings: \<open>t\<close> occurs in \<open>s\<close> as a contiguous run.\<close>

fun startswith :: "string \<Rightarrow> string \<Rightarrow> bool" where
  "startswith s [] = True"
| "startswith [] (c # t) = False"
| "startswith (d # s) (c # t) = (c = d \<and> startswith s t)"

fun str_contains :: "string \<Rightarrow> string \<Rightarrow> bool" where
  "str_contains [] t = (t = [])"
| "str_contains (d # s) t = (startswith (d # s) t \<or> str_contains s t)"

section \<open>The name normalizer\<close>

text \<open>
  Step 1 of \<open>normalize_name\<close> is
  \<^verbatim>\<open>re.sub(r'\(.*?\)|\{.*?}|\[.*?]', '', name)\<close>.
  The scan goes left to right. At an opening bracket the lazy \<open>.*?\<close> stops at the
  first closing bracket of the same kind, and fails when a line feed comes first
  (\<open>.\<close> does not match it) or the string ends; the other two alternatives cannot
  start at that character. A match is deleted and the scan goes on behind it;
  otherwise the character stays.
\<close>

definition closer :: "char \<Rightarrow> char option" where
  "closer c =
     (if c = CHR ''('' then Some CHR '')''
      else if c = CHR ''{'' then Some CHR ''}''
      else if c = CHR ''['' then Some CHR '']''
      else None)"

fun find_close :: "char \<Rightarrow> string \<Rightarrow> string option" where
  "find_close k [] = None"
| "find_close k (c # cs) =
     (if c = k then Some cs
      else if c = CHR 0x0A then None
      else find_close k cs)"

lemma find_close_length: "find_close k cs = Some r \<Longrightarrow> length r < Suc (length cs)"
  by (induction cs) (auto split: if_splits)

function remove_brackets :: "string \<Rightarrow> string" where
  "remove_brackets [] = []"
| "remove_brackets (c # cs) =
     (case closer c of
        None \<Rightarrow> c # remove_brackets cs
      | Some k \<Rightarrow>
          (case find_close k cs of
             Some r \<Rightarrow> remove_brackets r
           | None \<Rightarrow> c # remove_brackets cs))"
  by pat_completeness auto
termination
  by (relation "measure length") (auto dest: find_close_length)

text \<open>
  Step 2, \<^verbatim>\<open>re.sub(r'^[0-9\s\-]+', '', name)\<close>: the longest run of digits, white
  space and hyphens at the start of the string is removed.
\<close>

definition is_prefix_char :: "char \<Rightarrow> bool" where
  "is_prefix_char c = (is_digit c \<or> is_space c \<or> c = CHR ''-'')"

definition remove_numeric_prefix :: "string \<Rightarrow> string" where
  "remove_numeric_prefix s = dropWhile is_prefix_char s"

text \<open>
  Step 3, \<^verbatim>\<open>re.sub(r'[\s_\-:]+', ' ', name)\<close>: every maximal run of white space,
  underscores, hyphens and colons becomes one space.
\<close>

definition is_separator :: "char \<Rightarrow> bool" where
  "is_separator c = (is_space c \<or> c = CHR ''_'' \<or> c = CHR ''-'' \<or> c = CHR '':'')"

function collapse_separators :: "string \<Rightarrow> string" where
  "collapse_separators [] = []"
| "collapse_separators (c # cs) =
     (if is_separator c then CHR '' '' # collapse_separators (dropWhile is_separator cs)
      else c # collapse_separators cs)"
  by pat_completeness auto
termination
  by (relation "measure length") (auto simp: less_Suc_eq_le length_dropWhile_le)

text \<open>
  Step 4, \<^verbatim>\<open>re.sub(r"[^a-zA-Z0-9\s']", '', name)\<close>: only letters, digits, white
  space and the apostrophe stay.
\<close>

definition is_kept :: "char \<Rightarrow> bool" where
  "is_kept c = (is_lower c \<or> is_upper c \<or> is_digit c \<or> is_space c \<or> c = CHR 0x27)"

definition remove_special :: "string \<Rightarrow> string" where
  "remove_special s = filter is_kept s"

definition normalize_name :: "string \<Rightarrow> string" where
  "normalize_name name =
     (let name = strip (remove_brackets name);
          name = strip (remove_numeric_prefix name);
          name = collapse_separators name;
          name = remove_special name
      in strip (lower name))"

section \<open>The rank vector\<close>

text \<open>
  \<^verbatim>\<open>[1 if criterion in filename else 0 for criterion in ranking_criteria]\<close>
\<close>

definition get_rom_rank_vector :: "string \<Rightarrow> string list \<Rightarrow> int list" where
  "get_rom_rank_vector filename ranking_criteria =
     map (\<lambda>criterion. if str_contains filename criterion then 1 else 0) ranking_criteria"

text \<open>
  \<open>v > w\<close> on two Python lists of integers: the first position where they differ
  decides; when there is none, the longer list is the greater.
\<close>

fun list_gt :: "int list \<Rightarrow> int list \<Rightarrow> bool" where
  "list_gt [] w = False"
| "list_gt (x # v) [] = True"
| "list_gt (x # v) (y # w) = (if x = y then list_gt v w else x > y)"

section \<open>Paths\<close>

text \<open>
  A \<open>pathlib.Path\<close> is the list of its components, relative to a fixed starting
  directory \<open>[]\<close>. The configuration gives its three directories in that form. Suffix
  and stem follow \<open>PurePath.suffix\<close> and \<open>PurePath.stem\<close>: with \<open>i\<close> the index of the
  last dot of the name, the suffix is \<open>name[i:]\<close> when \<open>0 < i < len(name) - 1\<close> and
  empty otherwise.
\<close>

type_synonym path = "string list"

definition path_name :: "path \<Rightarrow> string" where
  "path_name p = (if p = [] then [] else last p)"

definition path_parent :: "path \<Rightarrow> path" where
  "path_parent p = butlast p"

fun rfind :: "char \<Rightarrow> string \<Rightarrow> nat option" where
  "rfind c [] = None"
| "rfind c (d # s) =
     (case rfind c s of
        Some i \<Rightarrow> Some (Suc i)
      | None \<Rightarrow> if d = c then Some 0 else None)"

definition name_suffix :: "string \<Rightarrow> string" where
  "name_suffix name =
     (case rfind CHR ''.'' name of
        None \<Rightarrow> []
      | Some i \<Rightarrow> if 0 < i \<and> Suc i < length name then drop i name else [])"

definition name_stem :: "string \<Rightarrow> string" where
  "name_stem name =
     (case rfind CHR ''.'' name of
        None \<Rightarrow> name
      | Some i \<Rightarrow> if 0 < i \<and> Suc i < length name then take i name else name)"

definition path_suffix :: "path \<Rightarrow> string" where
  "path_suffix p = name_suffix (path_name p)"

definition path_stem :: "path \<Rightarrow> string" where
  "path_stem p = name_stem (path_name p)"

section \<open>The file system\<close>

text \<open>
  The state the program works on: every entry below the starting directory, with its
  path and what it is. The order of the list is the order in which a directory scan
  reports the entries. There are no symbolic links and no permissions.
\<close>

datatype kind = File string | Dir

type_synonym filesystem = "(path \<times> kind) list"

datatype os_error =
  FileExistsError | FileNotFoundError | NotADirectoryError | IsADirectoryError | ShutilError

fun is_file_entry :: "path \<times> kind \<Rightarrow> bool" where
  "is_file_entry (p, File c) = True"
| "is_file_entry (p, Dir) = False"

definition is_dir :: "filesystem \<Rightarrow> path \<Rightarrow> bool" where
  "is_dir fs p = (p = [] \<or> (p, Dir) \<in> set fs)"

definition is_file :: "filesystem \<Rightarrow> path \<Rightarrow> bool" where
  "is_file fs p = (p \<in> set (map fst (filter is_file_entry fs)))"

definition path_exists :: "filesystem \<Rightarrow> path \<Rightarrow> bool" where
  "path_exists fs p = (is_dir fs p \<or> is_file fs p)"

text \<open>\<open>os.scandir(d)\<close>: the entries of directory \<open>d\<close>, by name.\<close>

definition child_of :: "path \<Rightarrow> path \<times> kind \<Rightarrow> bool" where
  "child_of d e = (fst e \<noteq> [] \<and> butlast (fst e) = d)"

definition scandir :: "filesystem \<Rightarrow> path \<Rightarrow> (string \<times> kind) list" where
  "scandir fs d = map (\<lambda>e. (last (fst e), snd e)) (filter (child_of d) fs)"

definition dirnames :: "filesystem \<Rightarrow> path \<Rightarrow> string list" where
  "dirnames fs d = map fst (filter (\<lambda>e. snd e = Dir) (scandir fs d))"

definition filenames :: "filesystem \<Rightarrow> path \<Rightarrow> string list" where
  "filenames fs d = map fst (filter (\<lambda>e. snd e \<noteq> Dir) (scandir fs d))"

definition max_depth :: "filesystem \<Rightarrow> nat" where
  "max_depth fs = foldr (\<lambda>e m. max (length (fst e)) m) fs 0"

lemma max_depth_ge: "e \<in> set fs \<Longrightarrow> length (fst e) \<le> max_depth fs"
  by (induction fs) (auto simp: max_depth_def)

lemma dirnames_depth: "n \<in> set (dirnames fs d) \<Longrightarrow> length d < max_depth fs"
proof -
  assume "n \<in> set (dirnames fs d)"
  then obtain e where e: "e \<in> set fs" "child_of d e"
    by (auto simp: dirnames_def scandir_def)
  then have "length (fst e) = Suc (length d)"
    by (cases "fst e" rule: rev_cases) (auto simp: child_of_def)
  with max_depth_ge [OF e(1)] show ?thesis by simp
qed

text \<open>
  \<open>os.walk(top)\<close>, top down: a directory with the names of its subdirectories and of
  its other entries, then the walk of each subdirectory in turn. A directory that cannot
  be scanned yields nothing (the scan error is ignored).
\<close>

function os_walk :: "filesystem \<Rightarrow> path \<Rightarrow> (path \<times> string list \<times> string list) list" where
  "os_walk fs t =
     (if is_dir fs t
      then (t, dirnames fs t, filenames fs t)
             # concat (map (\<lambda>n. os_walk fs (t @ [n])) (dirnames fs t))
      else [])"
  by pat_completeness auto
termination
  by (relation "measure (\<lambda>(fs, t). Suc (max_depth fs) - length t)")
     (auto dest: dirnames_depth)

declare os_walk.simps [simp del]

text \<open>
  \<open>Path.rglob('*')\<close>: every entry of every directory of the walk, the entries of a
  directory before those of its subdirectories.
\<close>

definition rglob :: "filesystem \<Rightarrow> path \<Rightarrow> path list" where
  "rglob fs t =
     concat (map (\<lambda>w. map (\<lambda>e. fst w @ [fst e]) (scandir fs (fst w))) (os_walk fs t))"

text \<open>\<open>os.remove(p)\<close>\<close>

definition os_remove :: "filesystem \<Rightarrow> path \<Rightarrow> os_error + filesystem" where
  "os_remove fs p =
     (if is_file fs p then Inr (filter (\<lambda>e. fst e \<noteq> p) fs)
      else if is_dir fs p then Inl IsADirectoryError
      else Inl FileNotFoundError)"

text \<open>
  \<open>Path.mkdir(parents=True, exist_ok=True)\<close>: an existing directory is left as it is;
  an existing file raises; missing parents are created first. When an ancestor is a
  regular file the first \<open>os.mkdir\<close> fails with \<open>NotADirectoryError\<close>, before anything
  is created.
\<close>

function mkdir :: "filesystem \<Rightarrow> path \<Rightarrow> os_error + filesystem" where
  "mkdir fs p =
     (if is_dir fs p then Inr fs
      else if is_file fs p then Inl FileExistsError
      else (case mkdir fs (path_parent p) of
              Inl e \<Rightarrow> Inl NotADirectoryError
            | Inr fs' \<Rightarrow> Inr (fs' @ [(p, Dir)])))"
  by pat_completeness auto
termination
  by (relation "measure (\<lambda>(fs, p). length p)") (auto simp: is_dir_def path_parent_def)

declare mkdir.simps [simp del]

text \<open>
  \<open>shutil.move(src, dst)\<close>. A \<open>dst\<close> that is a directory receives the source under
  its own name. The rename needs the source and the parent of the target; a file
  replaces a file at the target; a directory is not moved into itself nor onto a
  file. The entry keeps its place in the list.
\<close>

definition rename_tree :: "path \<Rightarrow> path \<Rightarrow> path \<times> kind \<Rightarrow> path \<times> kind" where
  "rename_tree src dst e =
     (if prefix src (fst e) then (dst @ drop (length src) (fst e), snd e) else e)"

definition shutil_move :: "filesystem \<Rightarrow> path \<Rightarrow> path \<Rightarrow> os_error + filesystem" where
  "shutil_move fs src dst =
     (let real_dst = (if is_dir fs dst then dst @ [path_name src] else dst)
      in if is_dir fs dst \<and> src \<noteq> dst \<and> path_exists fs real_dst then Inl ShutilError
         else if \<not> path_exists fs src then Inl FileNotFoundError
         else if src = real_dst \<or> src = dst then Inr fs
         else if \<not> is_dir fs (path_parent real_dst) then Inl FileNotFoundError
         else if is_file fs src
           then Inr (map (\<lambda>e. if fst e = src then (real_dst, snd e) else e)
                      (filter (\<lambda>e. fst e \<noteq> real_dst) fs))
         else if prefix src real_dst then Inl ShutilError
         else if path_exists fs real_dst then Inl FileExistsError
         else Inr (map (rename_tree src real_dst) fs))"

section \<open>The log\<close>

text \<open>
  Each call of the logger is an entry: its level and what the message says. The sink
  behind the logger, with its threshold and its format, is not part of the model.
\<close>

datatype level = DEBUG | INFO | WARNING | ERROR

datatype action = MOVE | ARCHIVE

datatype message =
    RomSorterStart
  | DryRunMode bool
  | SourceNotFound path
  | ScanningIn path
  | ExcludingDirs "string list"
  | ExcludingExtensions "string list"
  | CleanupStart
  | DryRunDelete path
  | Delete path
  | FailedDelete os_error
  | CleanupFinished
  | ScanningFor path
  | SkipExcludedType path
  | SkipExcludedDir path
  | FoundGames nat
  | SingleVersion string string
  | ProcessingGroup string string nat
  | FoundRom string "int list"
  | BestVersion string string string "int list"
  | Skipping action path
  | DryRunAction action path path
  | DoAction action path path
  | FailedAction action os_error
  | NoBestVersion string string
  | RomSorterFinished

type_synonym log = "(level \<times> message) list"

section \<open>The duplicate cleaner\<close>

text \<open>
  \<open>cleanup_unzipped_duplicates\<close> consumes \<open>os.walk\<close> one directory at a time and
  deletes between two steps of the walk. What it deletes are regular files of the
  directory the walk has just reported, and the walk goes on with the subdirectory
  names it read before: the directories it reports are those of the tree it started
  on. So the walk is taken from the state at the start of the pass.
\<close>

definition zip_basenames :: "string list \<Rightarrow> string list" where
  "zip_basenames fnames = map name_stem (filter (\<lambda>f. endswith (lower f) ''.zip'') fnames)"

definition is_duplicate :: "string list \<Rightarrow> string list \<Rightarrow> string \<Rightarrow> bool" where
  "is_duplicate excluded_exts fnames f =
     (let basename = name_stem f; ext = lower (name_suffix f)
      in basename \<in> set (zip_basenames fnames) \<and> ext \<noteq> ''.zip''
         \<and> ext \<notin> set excluded_exts)"

definition files_to_remove :: "string list \<Rightarrow> path \<Rightarrow> string list \<Rightarrow> path list" where
  "files_to_remove excluded_exts dirpath fnames =
     (if zip_basenames fnames = [] then []
      else map (\<lambda>f. dirpath @ [f]) (filter (is_duplicate excluded_exts fnames) fnames))"

fun remove_files :: "bool \<Rightarrow> path list \<Rightarrow> filesystem \<Rightarrow> filesystem \<times> log" where
  "remove_files dry_run [] fs = (fs, [])"
| "remove_files dry_run (file_path # rest) fs =
     (if dry_run
      then (case remove_files dry_run rest fs of
              (fs', l) \<Rightarrow> (fs', (INFO, DryRunDelete file_path) # l))
      else (case os_remove fs file_path of
              Inr fs1 \<Rightarrow>
                (case remove_files dry_run rest fs1 of
                   (fs', l) \<Rightarrow> (fs', (INFO, Delete file_path) # l))
            | Inl e \<Rightarrow>
                (case remove_files dry_run rest fs of
                   (fs', l) \<Rightarrow> (fs', (INFO, Delete file_path) # (ERROR, FailedDelete e) # l))))"

fun cleanup_dirs ::
  "bool \<Rightarrow> string list \<Rightarrow> (path \<times> string list \<times> string list) list \<Rightarrow> filesystem
     \<Rightarrow> filesystem \<times> log" where
  "cleanup_dirs dry_run excluded_exts [] fs = (fs, [])"
| "cleanup_dirs dry_run excluded_exts ((dirpath, dnames, fnames) # rest) fs =
     (case remove_files dry_run (files_to_remove excluded_exts dirpath fnames) fs of
        (fs1, l1) \<Rightarrow>
          (case cleanup_dirs dry_run excluded_exts rest fs1 of
             (fs2, l2) \<Rightarrow> (fs2, l1 @ l2)))"

definition cleanup_unzipped_duplicates ::
  "path \<Rightarrow> bool \<Rightarrow> string list \<Rightarrow> filesystem \<Rightarrow> filesystem \<times> log" where
  "cleanup_unzipped_duplicates source_dir dry_run excluded_exts fs =
     (case cleanup_dirs dry_run excluded_exts (os_walk fs source_dir) fs of
        (fs', l) \<Rightarrow> (fs', (INFO, CleanupStart) # l @ [(INFO, CleanupFinished)]))"

section \<open>The relocator\<close>

definition handle_file_move ::
  "path \<Rightarrow> path \<Rightarrow> bool \<Rightarrow> bool \<Rightarrow> filesystem \<Rightarrow> filesystem \<times> log" where
  "handle_file_move source_path dest_path dry_run is_archive fs =
     (let act = (if is_archive then ARCHIVE else MOVE)
      in if path_exists fs dest_path then (fs, [(WARNING, Skipping act dest_path)])
         else if dry_run then (fs, [(INFO, DryRunAction act source_path dest_path)])
         else (case shutil_move fs source_path dest_path of
                 Inr fs' \<Rightarrow> (fs', [(INFO, DoAction act source_path dest_path)])
               | Inl e \<Rightarrow>
                   (fs, [(INFO, DoAction act source_path dest_path),
                         (ERROR, FailedAction act e)])))"

section \<open>Grouping\<close>

text \<open>
  \<open>roms_by_game\<close> is a dictionary from (normalized name, extension) to the list of
  paths, iterated in the order the keys were first stored: an association list.
\<close>

type_synonym game_key = "string \<times> string"

type_synonym groups = "(game_key \<times> path list) list"

definition add_to_group :: "game_key \<Rightarrow> path \<Rightarrow> groups \<Rightarrow> groups" where
  "add_to_group game_key filepath roms_by_game =
     (if game_key \<in> set (map fst roms_by_game)
      then map (\<lambda>g. if fst g = game_key then (fst g, snd g @ [filepath]) else g) roms_by_game
      else roms_by_game @ [(game_key, [filepath])])"

definition in_excluded_dir :: "string list \<Rightarrow> path \<Rightarrow> bool" where
  "in_excluded_dir excluded_ds filepath =
     list_ex (\<lambda>part. lower part \<in> set excluded_ds) (path_parent filepath)"

fun scan_files ::
  "filesystem \<Rightarrow> string list \<Rightarrow> string list \<Rightarrow> path list \<Rightarrow> groups \<Rightarrow> groups \<times> log" where
  "scan_files fs excluded_ds excluded_exts [] roms_by_game = (roms_by_game, [])"
| "scan_files fs excluded_ds excluded_exts (filepath # rest) roms_by_game =
     (if is_file fs filepath
      then if lower (path_suffix filepath) \<in> set excluded_exts
        then (case scan_files fs excluded_ds excluded_exts rest roms_by_game of
                (g, l) \<Rightarrow> (g, (DEBUG, SkipExcludedType filepath) # l))
        else if in_excluded_dir excluded_ds filepath
        then (case scan_files fs excluded_ds excluded_exts rest roms_by_game of
                (g, l) \<Rightarrow> (g, (DEBUG, SkipExcludedDir filepath) # l))
        else scan_files fs excluded_ds excluded_exts rest
               (add_to_group (normalize_name (path_stem filepath), path_suffix filepath)
                  filepath roms_by_game)
      else scan_files fs excluded_ds excluded_exts rest roms_by_game)"

section \<open>Selecting the best version\<close>

text \<open>
  The ranking loop keeps \<open>best_rom\<close> and \<open>best_rank_vector\<close>, both \<open>None\<close> at first
  and both set together: one optional pair. Its debug lines do not depend on that
  state and are listed by \<open>rank_log\<close>.
\<close>

fun rank_loop ::
  "string list \<Rightarrow> path list \<Rightarrow> (path \<times> int list) option \<Rightarrow> (path \<times> int list) option" where
  "rank_loop criteria [] best = best"
| "rank_loop criteria (rom_path # rest) best =
     (let rank_vector = get_rom_rank_vector (path_name rom_path) criteria
      in rank_loop criteria rest
           (case best of
              None \<Rightarrow> Some (rom_path, rank_vector)
            | Some (best_rom, best_rank_vector) \<Rightarrow>
                if list_gt rank_vector best_rank_vector then Some (rom_path, rank_vector)
                else Some (best_rom, best_rank_vector)))"

definition select_best :: "string list \<Rightarrow> path list \<Rightarrow> (path \<times> int list) option" where
  "select_best criteria rom_paths = rank_loop criteria rom_paths None"

definition rank_log :: "string list \<Rightarrow> path list \<Rightarrow> log" where
  "rank_log criteria rom_paths =
     map (\<lambda>rom_path. (DEBUG, FoundRom (path_name rom_path)
                               (get_rom_rank_vector (path_name rom_path) criteria)))
       rom_paths"

section \<open>The orchestrator\<close>

record config =
  rom_source_dir :: path
  rom_destination_dir :: path
  archive_dir :: path
  ranking_criteria :: "string list"
  excluded_dirs :: "string list option"
  excluded_extensions :: "string list option"

fun archive_rest ::
  "path \<Rightarrow> path \<Rightarrow> bool \<Rightarrow> path list \<Rightarrow> filesystem \<Rightarrow> filesystem \<times> log" where
  "archive_rest arch best_rom dry_run [] fs = (fs, [])"
| "archive_rest arch best_rom dry_run (rom_path # rest) fs =
     (if rom_path \<noteq> best_rom
      then (case handle_file_move rom_path (arch @ [path_name rom_path]) dry_run True fs of
              (fs1, l1) \<Rightarrow>
                (case archive_rest arch best_rom dry_run rest fs1 of
                   (fs2, l2) \<Rightarrow> (fs2, l1 @ l2)))
      else archive_rest arch best_rom dry_run rest fs)"

definition process_group ::
  "config \<Rightarrow> bool \<Rightarrow> game_key \<times> path list \<Rightarrow> filesystem \<Rightarrow> filesystem \<times> log" where
  "process_group cfg dry_run g fs =
     (let game_name = fst (fst g); ext = snd (fst g); rom_paths = snd g;
          dest = rom_destination_dir cfg; arch = archive_dir cfg
      in case rom_paths of
           [rom_path] \<Rightarrow>
             (case handle_file_move rom_path (dest @ [path_name rom_path]) dry_run False fs of
                (fs1, l1) \<Rightarrow> (fs1, (INFO, SingleVersion game_name ext) # l1))
         | _ \<Rightarrow>
             (let l0 = (DEBUG, ProcessingGroup game_name ext (length rom_paths))
                         # rank_log (ranking_criteria cfg) rom_paths
              in case select_best (ranking_criteria cfg) rom_paths of
                   Some (best_rom, best_rank_vector) \<Rightarrow>
                     (case handle_file_move best_rom (dest @ [path_name best_rom])
                             dry_run False fs of
                        (fs1, l1) \<Rightarrow>
                          (case archive_rest arch best_rom dry_run rom_paths fs1 of
                             (fs2, l2) \<Rightarrow>
                               (fs2, l0 @ (INFO, BestVersion game_name ext
                                             (path_name best_rom) best_rank_vector)
                                             # l1 @ l2)))
                 | None \<Rightarrow> (fs, l0 @ [(WARNING, NoBestVersion game_name ext)])))"

fun process_groups :: "config \<Rightarrow> bool \<Rightarrow> groups \<Rightarrow> filesystem \<Rightarrow> filesystem \<times> log" where
  "process_groups cfg dry_run [] fs = (fs, [])"
| "process_groups cfg dry_run (g # rest) fs =
     (case process_group cfg dry_run g fs of
        (fs1, l1) \<Rightarrow>
          (case process_groups cfg dry_run rest fs1 of
             (fs2, l2) \<Rightarrow> (fs2, l1 @ l2)))"

definition config_list :: "string list option \<Rightarrow> string list" where
  "config_list v = (case v of None \<Rightarrow> [] | Some xs \<Rightarrow> xs)"

text \<open>
  A run returns the file system it leaves, the log, and the exception that ended
  it, if one did: only the two \<open>mkdir\<close> calls can raise.
\<close>

definition process_roms ::
  "config \<Rightarrow> bool \<Rightarrow> filesystem \<Rightarrow> filesystem \<times> log \<times> os_error option" where
  "process_roms cfg dry_run fs =
     (let l0 = [(INFO, RomSorterStart), (INFO, DryRunMode dry_run)];
          source_dir = rom_source_dir cfg;
          dest_dir = rom_destination_dir cfg;
          arch_dir = archive_dir cfg
      in if \<not> is_dir fs source_dir
         then (fs, l0 @ [(ERROR, SourceNotFound source_dir)], None)
         else
           (case mkdir fs dest_dir of
              Inl e \<Rightarrow> (fs, l0, Some e)
            | Inr fs1 \<Rightarrow>
                (case mkdir fs1 arch_dir of
                   Inl e \<Rightarrow> (fs1, l0, Some e)
                 | Inr fs2 \<Rightarrow>
                     (let excluded_ds = map lower (config_list (excluded_dirs cfg));
                          excluded_exts = map lower (config_list (excluded_extensions cfg));
                          l1 = [(INFO, ScanningIn source_dir),
                                (INFO, ExcludingDirs excluded_ds),
                                (INFO, ExcludingExtensions excluded_exts)]
                      in case cleanup_unzipped_duplicates source_dir dry_run excluded_exts fs2 of
                           (fs3, l2) \<Rightarrow>
                             (case scan_files fs3 excluded_ds excluded_exts
                                     (rglob fs3 source_dir) [] of
                                (roms_by_game, l3) \<Rightarrow>
                                  (case process_groups cfg dry_run roms_by_game fs3 of
                                     (fs4, l4) \<Rightarrow>
                                       (fs4,
                                        l0 @ l1 @ l2 @ [(INFO, ScanningFor source_dir)] @ l3
                                          @ [(INFO, FoundGames (length roms_by_game))] @ l4
                                          @ [(INFO, RomSorterFinished)],
                                        None)))))))"

section \<open>Configurations and trees used as examples\<close>

text \<open>\<open>CONFIG_DEFAULTS\<close>, with its three directories as component lists.\<close>

definition CONFIG_DEFAULTS :: config where
  "CONFIG_DEFAULTS =
     \<lparr>rom_source_dir = [''roms''], rom_destination_dir = [''sorted''],
      archive_dir = [''archive''], ranking_criteria = [''[!]''],
      excluded_dirs = Some [''images''], excluded_extensions = Some [''.png'', ''.jpg'']\<rparr>"







text \<open>A source tree with a directory named like an excluded one.\<close>

definition images_fs :: filesystem where
  "images_fs =
     [([''roms''], Dir), ([''roms'', ''images''], Dir),
      ([''roms'', ''images'', ''a.zip''], File ''zipped''),
      ([''roms'', ''images'', ''a.bin''], File ''unzipped'')]"

section \<open>The ranking, as the specification words it\<close>

text \<open>
  The rank vector of the specification: element \<open>i\<close> is 1 if criterion \<open>i\<close> occurs
  in the file name as a contiguous run of characters, else 0. Vectors are compared
  in the lexicographic order, first element most significant.
\<close>

definition spec_rank_vector :: "string \<Rightarrow> string list \<Rightarrow> int list" where
  "spec_rank_vector filename criteria =
     map (\<lambda>criterion. if sublist criterion filename then 1 else 0) criteria"

definition lex_less :: "int list \<Rightarrow> int list \<Rightarrow> bool" where
  "lex_less v w = ((v, w) \<in> lexord {(a, b). a < b})"

section \<open>Normal forms of names\<close>

text \<open>
  What the output of the normalizer looks like: its characters are lower-case
  letters, digits, spaces and apostrophes, and it neither starts nor ends with white
  space. Whether it is a fixed point depends on two more properties: that it does not
  start with a digit and that it has no two spaces in a row.
\<close>

definition plain_char :: "char \<Rightarrow> bool" where
  "plain_char c = (is_lower c \<or> is_digit c \<or> c = CHR '' '' \<or> c = CHR 0x27)"

definition starts_with_digit :: "string \<Rightarrow> bool" where
  "starts_with_digit s = (case s of [] \<Rightarrow> False | c # cs \<Rightarrow> is_digit c)"

fun has_double_space :: "string \<Rightarrow> bool" where
  "has_double_space (a # b # s) = ((a = CHR '' '' \<and> b = CHR '' '') \<or> has_double_space (b # s))"
| "has_double_space s = False"

definition trimmed :: "string \<Rightarrow> bool" where
  "trimmed s = (s = [] \<or> (\<not> is_space (hd s) \<and> \<not> is_space (last s)))"

section \<open>Normalizer examples\<close>

text \<open>
  C3 (as the claim states it, refuted): the three examples do not all hold. The third
  input normalizes to \<open>sonic the hedgehog 2\<close>, with a space where the colon was, not to
  \<open>sonic the hedgehog2\<close>.
\<close>

theorem normalize_examples_counterexample:
  "\<not> (normalize_name ''Super Mario Bros. (USA) [!]'' = ''super mario bros''
      \<and> normalize_name ''001 - Legend of Zelda'' = ''legend of zelda''
      \<and> normalize_name ''Sonic_The-Hedgehog:2'' = ''sonic the hedgehog2'')"
  by code_simp

text \<open>
  C3 (amended): the normalizer maps \<open>Super Mario Bros. (USA) [!]\<close> to
  \<open>super mario bros\<close>, \<open>001 - Legend of Zelda\<close> to \<open>legend of zelda\<close>, and
  \<open>Sonic_The-Hedgehog:2\<close> to \<open>sonic the hedgehog 2\<close>: the colon is a separator and
  becomes a space.
\<close>

theorem normalize_examples:
  "normalize_name ''Super Mario Bros. (USA) [!]'' = ''super mario bros''
   \<and> normalize_name ''001 - Legend of Zelda'' = ''legend of zelda''
   \<and> normalize_name ''Sonic_The-Hedgehog:2'' = ''sonic the hedgehog 2''"
  by code_simp

section \<open>The relocator on a collision\<close>

text \<open>
  C6: whenever the destination path exists, for a move or an archive request, in
  dry-run or live mode, the relocator leaves the file system as it is (so the source
  is still where it was) and emits one warning, naming the action kind.
\<close>

theorem collision_skips:
  "path_exists fs dest_path \<Longrightarrow>
   handle_file_move source_path dest_path dry_run is_archive fs
     = (fs, [(WARNING, Skipping (if is_archive then ARCHIVE else MOVE) dest_path)])"
  by (simp add: handle_file_move_def)

theorem collision_skips_witness:
  "path_exists [([''roms''], Dir), ([''roms'', ''a.zip''], File ''a''),
                ([''sorted''], Dir), ([''sorted'', ''a.zip''], File ''b'')]
     [''sorted'', ''a.zip'']
   \<and> handle_file_move [''roms'', ''a.zip''] [''sorted'', ''a.zip''] False False
        [([''roms''], Dir), ([''roms'', ''a.zip''], File ''a''),
         ([''sorted''], Dir), ([''sorted'', ''a.zip''], File ''b'')]
     = ([([''roms''], Dir), ([''roms'', ''a.zip''], File ''a''),
         ([''sorted''], Dir), ([''sorted'', ''a.zip''], File ''b'')],
        [(WARNING, Skipping MOVE [''sorted'', ''a.zip''])])"
proof -
  have h: "path_exists [([''roms''], Dir), ([''roms'', ''a.zip''], File ''a''),
                ([''sorted''], Dir), ([''sorted'', ''a.zip''], File ''b'')]
     [''sorted'', ''a.zip'']"
    by (simp add: path_exists_def is_file_def is_dir_def)
  show ?thesis
    using h collision_skips [OF h, of "[''roms'', ''a.zip'']" False False] by simp
qed

section \<open>A missing source directory\<close>

text \<open>
  C7: when the configured source is not a directory, \<open>process_roms\<close> logs the start
  lines and one error and returns: the file system is unchanged (nothing created,
  deleted or moved) and the log has no line of the cleaner or of any later step.
\<close>

theorem missing_source_stops:
  "\<not> is_dir fs (rom_source_dir cfg) \<Longrightarrow>
   process_roms cfg dry_run fs
     = (fs,
        [(INFO, RomSorterStart), (INFO, DryRunMode dry_run),
         (ERROR, SourceNotFound (rom_source_dir cfg))],
        None)"
  by (simp add: process_roms_def)

theorem missing_source_stops_witness:
  "\<not> is_dir [([''other''], Dir)] (rom_source_dir CONFIG_DEFAULTS)
   \<and> process_roms CONFIG_DEFAULTS False [([''other''], Dir)]
     = ([([''other''], Dir)],
        [(INFO, RomSorterStart), (INFO, DryRunMode False),
         (ERROR, SourceNotFound [''roms''])],
        None)"
proof -
  have h: "\<not> is_dir [([''other''], Dir)] (rom_source_dir CONFIG_DEFAULTS)"
    by (simp add: is_dir_def CONFIG_DEFAULTS_def)
  show ?thesis
    using h missing_source_stops [OF h, of False] by (simp add: CONFIG_DEFAULTS_def)
qed

section \<open>Applying the normalizer twice\<close>

lemma code_point_inject: "code_point c = code_point d \<Longrightarrow> c = d"
  by (simp add: code_point_def)

lemma char_eq_code_point: "c = d \<longleftrightarrow> code_point c = code_point d"
  by (auto dest: code_point_inject)

lemma literal_code_points:
  "code_point CHR '' '' = 32" "code_point (CHR 0x27) = 39" "code_point CHR ''_'' = 95"
  "code_point CHR ''-'' = 45" "code_point CHR '':'' = 58" "code_point CHR ''('' = 40"
  "code_point CHR ''{'' = 123" "code_point CHR ''['' = 91"
  by (simp_all add: code_point_def)

lemma is_literal:
  "c = CHR '' '' \<longleftrightarrow> code_point c = 32" "c = CHR 0x27 \<longleftrightarrow> code_point c = 39"
  "c = CHR ''_'' \<longleftrightarrow> code_point c = 95" "c = CHR ''-'' \<longleftrightarrow> code_point c = 45"
  "c = CHR '':'' \<longleftrightarrow> code_point c = 58" "c = CHR ''('' \<longleftrightarrow> code_point c = 40"
  "c = CHR ''{'' \<longleftrightarrow> code_point c = 123" "c = CHR ''['' \<longleftrightarrow> code_point c = 91"
  by (simp_all only: char_eq_code_point [of c] literal_code_points)

lemma space_is_space [simp]: "is_space CHR '' ''"
  by (simp add: is_space_def literal_code_points)

lemma space_is_separator [simp]: "is_separator CHR '' ''"
  by (simp add: is_separator_def)

lemma plain_space_iff: "plain_char c \<Longrightarrow> is_space c \<longleftrightarrow> c = CHR '' ''"
  unfolding plain_char_def is_space_def is_lower_def is_digit_def Let_def is_literal
  by arith

lemma plain_separator_iff: "plain_char c \<Longrightarrow> is_separator c \<longleftrightarrow> c = CHR '' ''"
  unfolding plain_char_def is_separator_def is_space_def is_lower_def is_digit_def Let_def
    is_literal
  by arith

lemma plain_prefix_iff: "plain_char c \<Longrightarrow> is_prefix_char c \<longleftrightarrow> is_digit c \<or> c = CHR '' ''"
  unfolding plain_char_def is_prefix_char_def is_space_def is_lower_def is_digit_def Let_def
    is_literal
  by arith

lemma plain_kept: "plain_char c \<Longrightarrow> is_kept c"
  unfolding plain_char_def is_kept_def is_space_def Let_def is_literal
  by auto

lemma plain_no_closer: "plain_char c \<Longrightarrow> closer c = None"
  unfolding plain_char_def closer_def is_lower_def is_digit_def Let_def is_literal
  by auto

lemma plain_lower_char: "plain_char c \<Longrightarrow> lower_char c = c"
  unfolding plain_char_def lower_char_def is_lower_def is_digit_def Let_def is_literal
  by auto

lemma code_point_lower_upper:
  "is_upper c \<Longrightarrow> code_point (lower_char c) = code_point c + 32"
  by (simp add: lower_char_def is_upper_def Let_def code_point_def of_char_of)

lemma kept_lower_plain:
  assumes "is_kept c" and "is_space c \<longrightarrow> c = CHR '' ''"
  shows "plain_char (lower_char c)"
proof -
  consider "is_upper c" | "\<not> is_upper c" "is_lower c \<or> is_digit c \<or> c = CHR '' '' \<or> c = CHR 0x27"
    using assms by (auto simp: is_kept_def)
  then show ?thesis
  proof cases
    case 1
    then have "is_lower (lower_char c)"
      using code_point_lower_upper [OF 1] by (simp add: is_lower_def is_upper_def Let_def)
    then show ?thesis by (simp add: plain_char_def)
  next
    case 2
    then have "plain_char c" by (simp add: plain_char_def)
    then show ?thesis by (simp add: plain_lower_char)
  qed
qed


lemma strip_trimmed: "trimmed (strip s)"
proof (cases "strip s = []")
  case True
  then show ?thesis by (simp add: trimmed_def)
next
  case False
  let ?zs = "dropWhile is_space s"
  let ?ys = "dropWhile is_space (rev ?zs)"
  from False have ys: "?ys \<noteq> []" by (simp add: strip_def)
  have zs: "?zs \<noteq> []" using ys by (cases "dropWhile is_space s") simp_all
  have "last (strip s) = hd ?ys" using ys by (simp add: strip_def last_rev)
  moreover have "\<not> is_space (hd ?ys)" using ys by (rule hd_dropWhile)
  moreover have "hd (strip s) = last ?ys" using ys by (simp add: strip_def hd_rev)
  moreover have "last ?ys = last (rev ?zs)"
    using ys by (metis last_appendR takeWhile_dropWhile_id)
  moreover have "last (rev ?zs) = hd ?zs" using zs by (simp add: last_rev)
  moreover have "\<not> is_space (hd ?zs)" using zs by (rule hd_dropWhile)
  ultimately show ?thesis by (simp add: trimmed_def)
qed

lemma strip_id: "trimmed s \<Longrightarrow> strip s = s"
proof (cases s)
  case Nil
  then show ?thesis by (simp add: strip_def)
next
  case (Cons c cs)
  assume "trimmed s"
  with Cons have h: "\<not> is_space (hd s)" and l: "\<not> is_space (last s)" "s \<noteq> []"
    by (auto simp: trimmed_def)
  from h Cons have "dropWhile is_space s = s" by simp
  moreover from l have "dropWhile is_space (rev s) = rev s"
    by (cases "rev s") (auto simp: last_rev)
  ultimately show ?thesis by (simp add: strip_def)
qed

lemma set_strip: "c \<in> set (strip s) \<Longrightarrow> c \<in> set s"
  by (auto simp: strip_def dest!: set_dropWhileD)

lemma remove_brackets_id: "\<forall>c\<in>set s. closer c = None \<Longrightarrow> remove_brackets s = s"
  by (induction s) auto

lemma set_collapse:
  "c \<in> set (collapse_separators s) \<Longrightarrow> c = CHR '' '' \<or> (c \<in> set s \<and> \<not> is_separator c)"
  by (induction s rule: collapse_separators.induct)
     (auto split: if_splits dest: set_dropWhileD)

lemma length_collapse_le: "length (collapse_separators s) \<le> length s"
proof (induction s rule: collapse_separators.induct)
  case 1
  show ?case by simp
next
  case (2 c cs)
  show ?case
  proof (cases "is_separator c")
    case True
    have "length (dropWhile is_separator cs) \<le> length cs" by (rule length_dropWhile_le)
    with 2 True show ?thesis by simp
  next
    case False
    with 2 show ?thesis by simp
  qed
qed

lemma collapse_empty_iff: "collapse_separators s = [] \<longleftrightarrow> s = []"
  by (cases s) auto

lemma hd_collapse:
  "s \<noteq> [] \<Longrightarrow> hd (collapse_separators s) = (if is_separator (hd s) then CHR '' '' else hd s)"
  by (cases s) auto

lemma last_collapse:
  "s \<noteq> [] \<Longrightarrow> \<not> is_separator (last s) \<Longrightarrow> last (collapse_separators s) = last s"
proof (induction s rule: collapse_separators.induct)
  case 1
  then show ?case by simp
next
  case (2 c cs)
  show ?case
  proof (cases "is_separator c")
    case True
    let ?d = "dropWhile is_separator cs"
    from True "2.prems" have cs: "cs \<noteq> []" by auto
    with "2.prems" have lc: "\<not> is_separator (last cs)" by simp
    have d: "?d \<noteq> []"
      using cs lc by (metis dropWhile_eq_Nil_conv last_in_set)
    then have ld: "last ?d = last cs"
      by (metis last_appendR takeWhile_dropWhile_id)
    from "2.IH"(1) [OF True d] lc ld have "last (collapse_separators ?d) = last cs"
      by simp
    moreover have "collapse_separators ?d \<noteq> []"
      using d collapse_empty_iff [of ?d] by blast
    then have "last (CHR '' '' # collapse_separators ?d) = last (collapse_separators ?d)"
      by (rule last_ConsR)
    moreover have "collapse_separators (c # cs) = CHR '' '' # collapse_separators ?d"
      using True by simp
    moreover have "last (c # cs) = last cs" using cs by simp
    ultimately show ?thesis by (simp only:)
  next
    case False
    show ?thesis
    proof (cases cs)
      case Nil
      with False show ?thesis by simp
    next
      case (Cons a as)
      with "2.prems" "2.IH"(2) [OF False] False show ?thesis
        by (simp add: collapse_empty_iff)
    qed
  qed
qed

lemma collapse_id:
  "\<forall>c\<in>set s. is_separator c \<longrightarrow> c = CHR '' '' \<Longrightarrow> \<not> has_double_space s
   \<Longrightarrow> collapse_separators s = s"
proof (induction s rule: collapse_separators.induct)
  case 1
  show ?case by simp
next
  case (2 c cs)
  have tl: "\<not> has_double_space cs" using "2.prems"(2) by (cases cs) auto
  show ?case
  proof (cases "is_separator c")
    case True
    with "2.prems"(1) have c: "c = CHR '' ''" by simp
    have d: "dropWhile is_separator cs = cs"
    proof (cases cs)
      case Nil
      then show ?thesis by simp
    next
      case (Cons a as)
      with "2.prems" c have "\<not> is_separator a" by auto
      with Cons show ?thesis by simp
    qed
    from "2.IH"(1) [OF True] "2.prems"(1) tl d
    have "collapse_separators cs = cs" by simp
    with True c d show ?thesis by simp
  next
    case False
    from "2.IH"(2) [OF False] "2.prems"(1) tl have "collapse_separators cs = cs" by simp
    with False show ?thesis by simp
  qed
qed

lemma collapse_shrinks:
  "has_double_space s \<Longrightarrow> length (collapse_separators s) < length s"
proof (induction s rule: collapse_separators.induct)
  case 1
  then show ?case by simp
next
  case (2 c cs)
  let ?d = "dropWhile is_separator cs"
  show ?case
  proof (cases "is_separator c")
    case True
    have le: "length (collapse_separators ?d) \<le> length ?d" by (rule length_collapse_le)
    have dl: "length ?d \<le> length cs" by (rule length_dropWhile_le)
    show ?thesis
    proof (cases "?d = cs")
      case same: True
      have "has_double_space cs"
      proof (cases cs)
        case Nil
        with "2.prems" show ?thesis by simp
      next
        case (Cons a as)
        with same have "\<not> is_separator a"
          by (metis dropWhile_eq_Nil_conv dropWhile.simps(2) hd_dropWhile list.distinct(1) list.sel(1))
        then have "a \<noteq> CHR '' ''" by auto
        with "2.prems" Cons show ?thesis by simp
      qed
      with "2.IH"(1) [OF True] same have "length (collapse_separators cs) < length cs" by simp
      with True same show ?thesis by simp
    next
      case False
      then have "length ?d < length cs"
        by (metis dl le_neq_implies_less length_dropWhile_le takeWhile_dropWhile_id
              append_self_conv2 length_append add_cancel_left_left length_0_conv)
      with True le show ?thesis by simp
    qed
  next
    case False
    then have "c \<noteq> CHR '' ''" by auto
    with "2.prems" have "has_double_space cs" by (cases cs) auto
    with "2.IH"(2) [OF False] False show ?thesis by simp
  qed
qed

lemma has_double_space_Cons:
  "has_double_space (a # s)
     \<longleftrightarrow> (s \<noteq> [] \<and> a = CHR '' '' \<and> hd s = CHR '' '') \<or> has_double_space s"
  by (cases s) auto

lemma collapse_no_double: "\<not> has_double_space (collapse_separators s)"
proof (induction s rule: collapse_separators.induct)
  case 1
  show ?case by simp
next
  case (2 c cs)
  let ?d = "dropWhile is_separator cs"
  show ?case
  proof (cases "is_separator c")
    case True
    have "hd (collapse_separators ?d) \<noteq> CHR '' ''" if "collapse_separators ?d \<noteq> []"
    proof -
      from that have d: "?d \<noteq> []" using collapse_empty_iff [of ?d] by blast
      then have "\<not> is_separator (hd ?d)" by (rule hd_dropWhile)
      moreover have "hd (collapse_separators ?d)
                       = (if is_separator (hd ?d) then CHR '' '' else hd ?d)"
        using d by (rule hd_collapse)
      ultimately show ?thesis using space_is_separator by metis
    qed
    moreover have "collapse_separators (c # cs) = CHR '' '' # collapse_separators ?d"
      using True by simp
    ultimately show ?thesis
      using "2.IH"(1) [OF True] has_double_space_Cons [of "CHR '' ''" "collapse_separators ?d"]
      by metis
  next
    case False
    then have "c \<noteq> CHR '' ''" by auto
    with "2.IH"(2) [OF False] False show ?thesis
      by (cases "collapse_separators cs") auto
  qed
qed


lemma space_not_digit: "\<not> is_digit CHR '' ''"
  by (simp add: is_digit_def literal_code_points)

lemma normalize_plain: "c \<in> set (normalize_name s) \<Longrightarrow> plain_char c"
proof -
  assume "c \<in> set (normalize_name s)"
  then obtain x where x: "c \<in> set (lower (remove_special (collapse_separators x)))"
    by (auto simp: normalize_name_def Let_def dest: set_strip)
  then obtain c' where c': "c = lower_char c'" "is_kept c'" "c' \<in> set (collapse_separators x)"
    by (auto simp: lower_def remove_special_def)
  from set_collapse [OF c'(3)] have "is_space c' \<longrightarrow> c' = CHR '' ''"
    by (auto simp: is_separator_def)
  with c' show ?thesis by (simp add: kept_lower_plain)
qed

lemma normalize_trimmed: "trimmed (normalize_name s)"
  by (simp add: normalize_name_def Let_def strip_trimmed)

lemma last_dropWhile: "dropWhile P xs \<noteq> [] \<Longrightarrow> last (dropWhile P xs) = last xs"
  by (metis last_appendR takeWhile_dropWhile_id)

lemma normalize_of_normal:
  assumes pl: "\<forall>c\<in>set n. plain_char c" and tr: "trimmed n"
  shows "normalize_name n = collapse_separators (dropWhile is_prefix_char n)"
proof -
  let ?m = "dropWhile is_prefix_char n"
  let ?k = "collapse_separators ?m"
  have plm: "\<forall>c\<in>set ?m. plain_char c" using pl by (auto dest: set_dropWhileD)
  have s1: "strip (remove_brackets n) = n"
    using pl tr by (simp add: remove_brackets_id plain_no_closer strip_id)
  have hm: "\<not> is_prefix_char (hd ?m)" "last ?m = last n" "n \<noteq> []" if "?m \<noteq> []"
    using that hd_dropWhile [OF that] last_dropWhile [OF that] by auto
  have trm: "trimmed ?m"
  proof (cases "?m = []")
    case True
    then show ?thesis by (simp only: trimmed_def simp_thms)
  next
    case False
    from hm [OF False] tr have "\<not> is_space (hd ?m)" "\<not> is_space (last ?m)"
      by (auto simp: is_prefix_char_def trimmed_def)
    then show ?thesis by (simp only: trimmed_def simp_thms)
  qed
  have s2: "strip (remove_numeric_prefix n) = ?m"
    using trm by (simp only: remove_numeric_prefix_def strip_id)
  have plk: "\<forall>c\<in>set ?k. plain_char c"
    using plm by (auto dest!: set_collapse simp: plain_char_def)
  have s4: "remove_special ?k = ?k"
    using plk by (simp add: remove_special_def plain_kept)
  have s5: "lower ?k = ?k"
    using plk by (simp add: lower_def plain_lower_char map_idI)
  have trk: "trimmed ?k"
  proof (cases "?m = []")
    case True
    then have "?k = []" by (simp only: collapse_separators.simps)
    then show ?thesis by (simp only: trimmed_def simp_thms)
  next
    case False
    from False have hin: "hd ?m \<in> set ?m" and lin: "last ?m \<in> set ?m" by simp_all
    from hm [OF False] trm False have a: "\<not> is_prefix_char (hd ?m)" "\<not> is_space (last ?m)"
      by (auto simp: trimmed_def)
    from plm hin have ph: "plain_char (hd ?m)" by blast
    from plm lin have pl': "plain_char (last ?m)" by blast
    from a(1) ph have hs: "\<not> is_separator (hd ?m)"
      by (simp add: plain_prefix_iff plain_separator_iff)
    from a(2) pl' have ls: "\<not> is_separator (last ?m)"
      by (simp add: plain_space_iff plain_separator_iff)
    from a(1) have hsp: "\<not> is_space (hd ?m)" by (simp add: is_prefix_char_def)
    have "hd ?k = hd ?m" using hd_collapse [OF False] hs by simp
    moreover have "last ?k = last ?m" using last_collapse [OF False ls] .
    ultimately show ?thesis using hsp a(2) by (simp only: trimmed_def simp_thms)
  qed
  have s6: "strip ?k = ?k" using trk by (rule strip_id)
  show ?thesis
    by (simp only: normalize_name_def Let_def s1 s2 s4 s5 s6)
qed

lemma normal_no_digit_keeps_prefix:
  assumes pl: "\<forall>c\<in>set n. plain_char c" and tr: "trimmed n" and nd: "\<not> starts_with_digit n"
  shows "dropWhile is_prefix_char n = n"
proof (cases n)
  case Nil
  then show ?thesis by simp
next
  case (Cons c cs)
  with pl tr nd have "plain_char c" "\<not> is_space c" "\<not> is_digit c"
    by (auto simp: trimmed_def starts_with_digit_def)
  then have "\<not> is_prefix_char c" by (simp add: plain_prefix_iff plain_space_iff)
  with Cons show ?thesis by simp
qed

lemma normal_fixed_point_iff:
  assumes pl: "\<forall>c\<in>set n. plain_char c" and tr: "trimmed n"
  shows "normalize_name n = n \<longleftrightarrow> \<not> starts_with_digit n \<and> \<not> has_double_space n"
proof
  assume ok: "\<not> starts_with_digit n \<and> \<not> has_double_space n"
  then have d: "dropWhile is_prefix_char n = n"
    using normal_no_digit_keeps_prefix [OF pl tr] by simp
  have "collapse_separators n = n"
    using pl ok by (intro collapse_id) (auto simp: plain_separator_iff)
  with d show "normalize_name n = n"
    by (simp only: normalize_of_normal [OF pl tr])
next
  assume fp: "normalize_name n = n"
  let ?m = "dropWhile is_prefix_char n"
  have eq: "collapse_separators ?m = n"
    using fp by (simp only: normalize_of_normal [OF pl tr])
  have len: "length (collapse_separators ?m) \<le> length ?m" by (rule length_collapse_le)
  have nd: "\<not> starts_with_digit n"
  proof
    assume "starts_with_digit n"
    then obtain c cs where n: "n = c # cs" "is_digit c"
      by (auto simp: starts_with_digit_def split: list.splits)
    then have "length ?m \<le> length cs"
      by (simp add: is_prefix_char_def length_dropWhile_le)
    with len eq n show False by simp
  qed
  then have d: "?m = n" by (rule normal_no_digit_keeps_prefix [OF pl tr])
  have "\<not> has_double_space n"
  proof
    assume "has_double_space n"
    then have "length (collapse_separators n) < length n" by (rule collapse_shrinks)
    with eq d show False by simp
  qed
  with nd show "\<not> starts_with_digit n \<and> \<not> has_double_space n" by simp
qed

lemma second_pass_normal:
  assumes pl: "\<forall>c\<in>set n. plain_char c" and tr: "trimmed n"
  shows "\<not> starts_with_digit (normalize_name n) \<and> \<not> has_double_space (normalize_name n)"
proof -
  let ?m = "dropWhile is_prefix_char n"
  have eq: "normalize_name n = collapse_separators ?m" by (rule normalize_of_normal [OF pl tr])
  have "\<not> starts_with_digit (collapse_separators ?m)"
  proof (cases "?m = []")
    case True
    then have "collapse_separators ?m = []" by (simp only: collapse_separators.simps)
    then show ?thesis by (simp only: starts_with_digit_def list.case simp_thms)
  next
    case False
    then have "\<not> is_prefix_char (hd ?m)" by (rule hd_dropWhile)
    then have "\<not> is_digit (hd ?m)" by (simp add: is_prefix_char_def)
    then have "\<not> is_digit (hd (collapse_separators ?m))"
      using hd_collapse [OF False] space_not_digit by simp
    moreover have "collapse_separators ?m \<noteq> []"
      using False collapse_empty_iff [of ?m] by blast
    ultimately show ?thesis
      by (cases "collapse_separators ?m") (simp_all add: starts_with_digit_def)
  qed
  then show ?thesis using collapse_no_double [of ?m] by (simp only: eq simp_thms)
qed

text \<open>
  C2 (as the claim states it, refuted): the normalizer is not idempotent. Of
  \<open>Mario & Luigi\<close> it makes \<open>mario  luigi\<close>, with two spaces where the ampersand was
  removed after the separators had been collapsed; a second application makes
  \<open>mario luigi\<close>.
\<close>

theorem normalize_not_idempotent:
  "normalize_name (normalize_name ''Mario & Luigi'') \<noteq> normalize_name ''Mario & Luigi''"
  by code_simp

text \<open>
  C2 (amended): a second application leaves a normalized name unchanged exactly when
  that name does not start with a digit and has no two spaces in a row; and whatever
  the input, the second application yields a fixed point, so three applications
  give what two give.
\<close>

theorem normalize_fixed_point:
  "(normalize_name (normalize_name s) = normalize_name s
      \<longleftrightarrow> \<not> starts_with_digit (normalize_name s) \<and> \<not> has_double_space (normalize_name s))
   \<and> normalize_name (normalize_name (normalize_name s)) = normalize_name (normalize_name s)"
proof -
  let ?n = "normalize_name s"
  have pl: "\<forall>c\<in>set ?n. plain_char c" by (auto dest: normalize_plain)
  have tr: "trimmed ?n" by (rule normalize_trimmed)
  have pl2: "\<forall>c\<in>set (normalize_name ?n). plain_char c" by (auto dest: normalize_plain)
  have tr2: "trimmed (normalize_name ?n)" by (rule normalize_trimmed)
  have "normalize_name (normalize_name ?n) = normalize_name ?n"
    using second_pass_normal [OF pl tr] normal_fixed_point_iff [OF pl2 tr2] by blast
  with normal_fixed_point_iff [OF pl tr] show ?thesis by blast
qed

section \<open>The best version of a group\<close>

lemma startswith_prefix: "startswith s t = prefix t s"
  by (induction s t rule: startswith.induct) auto

lemma str_contains_sublist: "str_contains s t = sublist t s"
  by (induction s) (auto simp: startswith_prefix sublist_Cons_right)

lemma rank_vector_spec: "get_rom_rank_vector f cs = spec_rank_vector f cs"
  by (simp add: get_rom_rank_vector_def spec_rank_vector_def str_contains_sublist)

lemma list_gt_lex_less: "list_gt v w = lex_less w v"
  by (induction v w rule: list_gt.induct) (auto simp: lex_less_def)

lemma lex_less_irrefl: "\<not> lex_less v v"
  unfolding lex_less_def by (rule lexord_irreflexive) simp

lemma lex_less_trans: "lex_less u v \<Longrightarrow> lex_less v w \<Longrightarrow> lex_less u w"
  unfolding lex_less_def by (erule lexord_trans) (auto simp: trans_def)

lemma lex_less_linear: "lex_less v w \<or> v = w \<or> lex_less w v"
  unfolding lex_less_def by (rule lexord_linear) auto

lemma rank_loop_first_max:
  "\<exists>pre w post. b # ps = pre @ w # post
     \<and> rank_loop cs ps (Some (b, spec_rank_vector (path_name b) cs))
         = Some (w, spec_rank_vector (path_name w) cs)
     \<and> (\<forall>p\<in>set pre. lex_less (spec_rank_vector (path_name p) cs) (spec_rank_vector (path_name w) cs))
     \<and> (\<forall>p\<in>set post. \<not> lex_less (spec_rank_vector (path_name w) cs) (spec_rank_vector (path_name p) cs))"
proof (induction ps arbitrary: b)
  case Nil
  show ?case by (rule exI [of _ "[]"]) simp
next
  case (Cons p ps)
  let ?r = "\<lambda>q. spec_rank_vector (path_name q) cs"
  show ?case
  proof (cases "lex_less (?r b) (?r p)")
    case True
    from Cons.IH [of p] obtain pre w post where d: "p # ps = pre @ w # post"
      and r: "rank_loop cs ps (Some (p, ?r p)) = Some (w, ?r w)"
      and lo: "\<forall>q\<in>set pre. lex_less (?r q) (?r w)"
      and hi: "\<forall>q\<in>set post. \<not> lex_less (?r w) (?r q)"
      by blast
    have "w = p \<or> lex_less (?r p) (?r w)"
      using d lo by (cases pre) auto
    with True have bw: "lex_less (?r b) (?r w)"
      by (auto intro: lex_less_trans)
    have "b # p # ps = (b # pre) @ w # post" using d by simp
    moreover have "rank_loop cs (p # ps) (Some (b, ?r b)) = Some (w, ?r w)"
      using True r by (simp add: rank_vector_spec list_gt_lex_less)
    moreover have "\<forall>q\<in>set (b # pre). lex_less (?r q) (?r w)"
      using lo bw by simp
    ultimately show ?thesis using hi by blast
  next
    case False
    from Cons.IH [of b] obtain pre w post where d: "b # ps = pre @ w # post"
      and r: "rank_loop cs ps (Some (b, ?r b)) = Some (w, ?r w)"
      and lo: "\<forall>q\<in>set pre. lex_less (?r q) (?r w)"
      and hi: "\<forall>q\<in>set post. \<not> lex_less (?r w) (?r q)"
      by blast
    have r': "rank_loop cs (p # ps) (Some (b, ?r b)) = Some (w, ?r w)"
      using False r by (simp add: rank_vector_spec list_gt_lex_less)
    show ?thesis
    proof (cases pre)
      case Nil
      with d have "w = b" "post = ps" by auto
      then have "b # p # ps = [] @ w # (p # post)" by simp
      moreover have "\<forall>q\<in>set (p # post). \<not> lex_less (?r w) (?r q)"
        using hi False \<open>w = b\<close> by simp
      ultimately show ?thesis using r' by (metis empty_iff list.set(1))
    next
      case (Cons a pre')
      with d have "a = b" and ps: "ps = pre' @ w # post" by auto
      with lo Cons have bw: "lex_less (?r b) (?r w)" by simp
      have "lex_less (?r p) (?r w)"
        using False bw lex_less_linear [of "?r b" "?r p"] by (auto intro: lex_less_trans)
      then have "\<forall>q\<in>set (b # p # pre'). lex_less (?r q) (?r w)"
        using lo Cons \<open>a = b\<close> by simp
      moreover have "b # p # ps = (b # p # pre') @ w # post" using ps by simp
      ultimately show ?thesis using r' hi by blast
    qed
  qed
qed

lemma select_best_first_max:
  assumes "rom_paths \<noteq> []"
  shows "\<exists>pre w post. rom_paths = pre @ w # post
     \<and> select_best cs rom_paths = Some (w, spec_rank_vector (path_name w) cs)
     \<and> (\<forall>p\<in>set pre. lex_less (spec_rank_vector (path_name p) cs) (spec_rank_vector (path_name w) cs))
     \<and> (\<forall>p\<in>set post. \<not> lex_less (spec_rank_vector (path_name w) cs) (spec_rank_vector (path_name p) cs))"
proof -
  from assms obtain b ps where "rom_paths = b # ps" by (cases rom_paths) auto
  then show ?thesis
    using rank_loop_first_max [of b ps cs]
    by (simp add: select_best_def rank_vector_spec)
qed

text \<open>
  C4: in a group of at least two members, for any criteria list, the version that
  \<open>select_best\<close> returns is the member at an index \<open>i\<close> whose rank vector (as the
  specification defines it, on the raw file name) is the lexicographic maximum of the
  group, every member before \<open>i\<close> having a strictly smaller vector: the first
  maximal member in discovery order.
\<close>

theorem winner_is_first_lex_max:
  assumes "2 \<le> length rom_paths"
  shows "\<exists>i<length rom_paths.
           select_best criteria rom_paths
             = Some (rom_paths ! i, spec_rank_vector (path_name (rom_paths ! i)) criteria)
         \<and> (\<forall>j<length rom_paths.
               spec_rank_vector (path_name (rom_paths ! j)) criteria
                 = spec_rank_vector (path_name (rom_paths ! i)) criteria
               \<or> lex_less (spec_rank_vector (path_name (rom_paths ! j)) criteria)
                    (spec_rank_vector (path_name (rom_paths ! i)) criteria))
         \<and> (\<forall>j<i. lex_less (spec_rank_vector (path_name (rom_paths ! j)) criteria)
                      (spec_rank_vector (path_name (rom_paths ! i)) criteria))"
proof -
  let ?r = "\<lambda>q. spec_rank_vector (path_name q) criteria"
  from assms have "rom_paths \<noteq> []" by auto
  from select_best_first_max [OF this, of criteria]
  obtain pre w post where d: "rom_paths = pre @ w # post"
    and r: "select_best criteria rom_paths = Some (w, ?r w)"
    and lo: "\<forall>q\<in>set pre. lex_less (?r q) (?r w)"
    and hi: "\<forall>q\<in>set post. \<not> lex_less (?r w) (?r q)"
    by blast
  have i: "length pre < length rom_paths" "rom_paths ! length pre = w"
    using d by auto
  have below: "\<forall>j<length pre. lex_less (?r (rom_paths ! j)) (?r w)"
    using lo d by (auto simp: nth_append)
  have "\<forall>j<length rom_paths. ?r (rom_paths ! j) = ?r w \<or> lex_less (?r (rom_paths ! j)) (?r w)"
  proof (intro allI impI)
    fix j assume "j < length rom_paths"
    then have "rom_paths ! j \<in> set rom_paths" by simp
    then consider "rom_paths ! j \<in> set pre" | "rom_paths ! j = w" | "rom_paths ! j \<in> set post"
      using d by auto
    then show "?r (rom_paths ! j) = ?r w \<or> lex_less (?r (rom_paths ! j)) (?r w)"
      using lo hi lex_less_linear [of "?r (rom_paths ! j)" "?r w"] by cases auto
  qed
  with i r below show ?thesis by blast
qed

theorem winner_is_first_lex_max_witness:
  "2 \<le> length [[''roms'', ''Game (USA).zip''], [''roms'', ''Game [!].zip'']]
   \<and> (\<exists>i<length [[''roms'', ''Game (USA).zip''], [''roms'', ''Game [!].zip'']].
          select_best [''[!]''] [[''roms'', ''Game (USA).zip''], [''roms'', ''Game [!].zip'']]
            = Some ([[''roms'', ''Game (USA).zip''], [''roms'', ''Game [!].zip'']] ! i,
                    spec_rank_vector
                      (path_name ([[''roms'', ''Game (USA).zip''], [''roms'', ''Game [!].zip'']] ! i))
                      [''[!]'']))
   \<and> select_best [''[!]''] [[''roms'', ''Game (USA).zip''], [''roms'', ''Game [!].zip'']]
        = Some ([''roms'', ''Game [!].zip''], [1])"
proof -
  have h: "2 \<le> length [[''roms'', ''Game (USA).zip''], [''roms'', ''Game [!].zip'']]"
    by simp
  have e: "select_best [''[!]''] [[''roms'', ''Game (USA).zip''], [''roms'', ''Game [!].zip'']]
        = Some ([''roms'', ''Game [!].zip''], [1])"
    by code_simp
  from winner_is_first_lex_max [OF h, of "[''[!]'']"] h e show ?thesis
    by blast
qed

section \<open>The branch without a winner\<close>
















section \<open>The walk and the deletions\<close>

text \<open>
  The walk visits the source directory and, with a directory, each of its
  subdirectories. Deleting a path that is not a directory changes neither the
  directories the walk visits, nor their order, nor the subdirectory names it reports:
  the walk of the state at the start of the cleaner pass is the walk the pass sees.
\<close>

lemma dirnames_is_dir:
  assumes "n \<in> set (dirnames fs d)"
  shows "is_dir fs (d @ [n])"
proof -
  from assms obtain e where e: "e \<in> set fs" "child_of d e" "last (fst e) = n" "snd e = Dir"
    by (auto simp: dirnames_def scandir_def)
  then have "fst e = d @ [n]"
    by (cases "fst e" rule: rev_cases) (auto simp: child_of_def)
  with e(4) have "e = (d @ [n], Dir)" by (simp add: prod_eq_iff)
  with e(1) have "(d @ [n], Dir) \<in> set fs" by simp
  then show ?thesis by (simp add: is_dir_def)
qed

lemma os_walk_child:
  "d \<in> fst ` set (os_walk fs t) \<Longrightarrow> n \<in> set (dirnames fs d)
   \<Longrightarrow> d @ [n] \<in> fst ` set (os_walk fs t)"
proof (induction fs t rule: os_walk.induct)
  case (1 fs t)
  from "1.prems"(1) have t: "is_dir fs t"
    by (subst (asm) os_walk.simps) (auto split: if_splits)
  from "1.prems"(1) t consider "d = t"
    | m where "m \<in> set (dirnames fs t)" "d \<in> fst ` set (os_walk fs (t @ [m]))"
    by (subst (asm) os_walk.simps) auto
  then show ?case
  proof cases
    case 1
    have "is_dir fs (t @ [n])" using "1.prems"(2) 1 by (simp add: dirnames_is_dir)
    then have "t @ [n] \<in> fst ` set (os_walk fs (t @ [n]))"
      by (subst os_walk.simps) simp
    with "1.prems"(2) 1 t show ?thesis
      by (subst os_walk.simps) auto
  next
    case 2
    from "1.IH" [OF t 2(1) 2(2) "1.prems"(2)] 2(1) t show ?thesis
      by (subst os_walk.simps) auto
  qed
qed



lemma dirnames_after_remove:
  "(p, Dir) \<notin> set fs \<Longrightarrow> dirnames (filter (\<lambda>e. fst e \<noteq> p) fs) d = dirnames fs d"
  by (induction fs) (auto simp: dirnames_def scandir_def)

lemma is_dir_after_remove:
  "(p, Dir) \<notin> set fs \<Longrightarrow> is_dir (filter (\<lambda>e. fst e \<noteq> p) fs) d = is_dir fs d"
  by (auto simp: is_dir_def)

lemma os_walk_after_remove:
  assumes "(p, Dir) \<notin> set fs"
  shows "map (\<lambda>w. (fst w, fst (snd w))) (os_walk (filter (\<lambda>e. fst e \<noteq> p) fs) t)
           = map (\<lambda>w. (fst w, fst (snd w))) (os_walk fs t)"
  using assms
proof (induction fs t rule: os_walk.induct)
  case (1 fs t)
  let ?fs' = "filter (\<lambda>e. fst e \<noteq> p) fs"
  let ?v = "\<lambda>w :: path \<times> string list \<times> string list. (fst w, fst (snd w))"
  have d: "dirnames ?fs' t = dirnames fs t" by (rule dirnames_after_remove [OF "1.prems"])
  have i: "is_dir ?fs' t = is_dir fs t" by (rule is_dir_after_remove [OF "1.prems"])
  show ?case
  proof (cases "is_dir fs t")
    case True
    have ih: "map (\<lambda>n. map ?v (os_walk ?fs' (t @ [n]))) (dirnames fs t)
                = map (\<lambda>n. map ?v (os_walk fs (t @ [n]))) (dirnames fs t)"
      by (rule map_cong [OF refl]) (rule "1.IH" [OF True _ "1.prems"])
    have l: "os_walk ?fs' t = (t, dirnames fs t, filenames ?fs' t)
               # concat (map (\<lambda>n. os_walk ?fs' (t @ [n])) (dirnames fs t))"
      using True i d by (subst os_walk.simps) (simp only: if_True)
    have r: "os_walk fs t = (t, dirnames fs t, filenames fs t)
               # concat (map (\<lambda>n. os_walk fs (t @ [n])) (dirnames fs t))"
      using True by (subst os_walk.simps) (simp only: if_True)
    have "map ?v (os_walk ?fs' t)
            = (t, dirnames fs t) # concat (map (\<lambda>n. map ?v (os_walk ?fs' (t @ [n]))) (dirnames fs t))"
      by (simp only: l list.map map_concat map_map comp_def fst_conv snd_conv)
    also have "\<dots> = (t, dirnames fs t)
                 # concat (map (\<lambda>n. map ?v (os_walk fs (t @ [n]))) (dirnames fs t))"
      by (simp only: ih)
    also have "\<dots> = map ?v (os_walk fs t)"
      by (simp only: r list.map map_concat map_map comp_def fst_conv snd_conv)
    finally show ?thesis .
  next
    case False
    have "os_walk fs t = []" using False by (subst os_walk.simps) simp
    moreover have "os_walk ?fs' t = []" using False i by (subst os_walk.simps) simp
    ultimately show ?thesis by simp
  qed
qed

section \<open>What the duplicate cleaner deletes\<close>

lemma is_file_filter:
  "is_file (filter (\<lambda>e. P (fst e)) fs) q \<longleftrightarrow> P q \<and> is_file fs q"
  by (auto simp: is_file_def)

lemma is_dir_filter:
  "is_dir (filter (\<lambda>e. P (fst e)) fs) q \<longleftrightarrow> q = [] \<or> (P q \<and> (q, Dir) \<in> set fs)"
  by (auto simp: is_dir_def)

lemma remove_files_live:
  "fst (remove_files False ps fs)
     = filter (\<lambda>e. \<not> (fst e \<in> set ps \<and> is_file fs (fst e))) fs"
proof (induction ps arbitrary: fs)
  case Nil
  show ?case by simp
next
  case (Cons p ps)
  show ?case
  proof (cases "is_file fs p")
    case True
    let ?fs1 = "filter (\<lambda>e. fst e \<noteq> p) fs"
    have "fst (remove_files False (p # ps) fs) = fst (remove_files False ps ?fs1)"
      using True by (simp add: os_remove_def split: prod.splits)
    also have "\<dots> = filter (\<lambda>e. \<not> (fst e \<in> set ps \<and> is_file ?fs1 (fst e))) ?fs1"
      by (rule Cons.IH)
    also have "\<dots> = filter (\<lambda>e. \<not> (fst e \<in> set (p # ps) \<and> is_file fs (fst e))) fs"
      using True is_file_filter [of "\<lambda>q. q \<noteq> p" fs]
      by (auto intro: filter_cong)
    finally show ?thesis .
  next
    case False
    have "fst (remove_files False (p # ps) fs) = fst (remove_files False ps fs)"
      using False by (simp add: os_remove_def split: prod.splits)
    also have "\<dots> = filter (\<lambda>e. \<not> (fst e \<in> set ps \<and> is_file fs (fst e))) fs"
      by (rule Cons.IH)
    also have "\<dots> = filter (\<lambda>e. \<not> (fst e \<in> set (p # ps) \<and> is_file fs (fst e))) fs"
      using False by (auto intro: filter_cong)
    finally show ?thesis .
  qed
qed

lemma fst_cleanup_dirs_Cons:
  "fst (cleanup_dirs dry xe ((d, dns, fns) # ws) fs)
     = fst (cleanup_dirs dry xe ws (fst (remove_files dry (files_to_remove xe d fns) fs)))"
  by (simp split: prod.splits)

lemma fst_cleanup:
  "fst (cleanup_unzipped_duplicates src dry xe fs)
     = fst (cleanup_dirs dry xe (os_walk fs src) fs)"
  by (simp add: cleanup_unzipped_duplicates_def split: prod.splits)

lemma cleanup_dirs_live:
  "fst (cleanup_dirs False xe ws fs)
     = filter (\<lambda>e. \<not> ((\<exists>w\<in>set ws. fst e \<in> set (files_to_remove xe (fst w) (snd (snd w))))
                       \<and> is_file fs (fst e))) fs"
proof (induction ws arbitrary: fs)
  case Nil
  show ?case by simp
next
  case (Cons w ws)
  obtain d dns fns where w: "w = (d, dns, fns)" by (cases w) auto
  let ?fs1 = "filter (\<lambda>e. \<not> (fst e \<in> set (files_to_remove xe d fns) \<and> is_file fs (fst e))) fs"
  have "fst (cleanup_dirs False xe (w # ws) fs) = fst (cleanup_dirs False xe ws ?fs1)"
    by (simp only: w fst_cleanup_dirs_Cons remove_files_live)
  also have "\<dots> = filter (\<lambda>e. \<not> ((\<exists>w\<in>set ws. fst e \<in> set (files_to_remove xe (fst w) (snd (snd w))))
                       \<and> is_file ?fs1 (fst e))) ?fs1"
    by (rule Cons.IH)
  also have "\<dots> = filter (\<lambda>e. \<not> ((\<exists>w\<in>set (w # ws). fst e \<in> set (files_to_remove xe (fst w) (snd (snd w))))
                       \<and> is_file fs (fst e))) fs"
    using is_file_filter
            [of "\<lambda>q. \<not> (q \<in> set (files_to_remove xe d fns) \<and> is_file fs q)" fs]
    by (auto simp: w intro: filter_cong)
  finally show ?case .
qed

lemma os_walk_entry:
  "(d, dns, fns) \<in> set (os_walk fs t) \<Longrightarrow> dns = dirnames fs d \<and> fns = filenames fs d"
proof (induction fs t rule: os_walk.induct)
  case (1 fs t)
  from "1.prems" show ?case
    by (subst (asm) os_walk.simps) (auto split: if_splits dest: "1.IH")
qed

lemma os_walk_root: "is_dir fs t \<Longrightarrow> t \<in> fst ` set (os_walk fs t)"
  by (subst os_walk.simps) simp

lemma filenames_is_file:
  assumes "f \<in> set (filenames fs d)"
  shows "is_file fs (d @ [f])"
proof -
  from assms obtain e where e: "e \<in> set fs" "child_of d e" "last (fst e) = f" "snd e \<noteq> Dir"
    by (auto simp: filenames_def scandir_def)
  then have p: "fst e = d @ [f]"
    by (cases "fst e" rule: rev_cases) (auto simp: child_of_def)
  from e(4) have "is_file_entry e" by (cases e; cases "snd e") auto
  with e(1) p show ?thesis by (force simp: is_file_def)
qed

lemma files_to_remove_iff:
  "p \<in> set (files_to_remove xe d fns) \<longleftrightarrow> (\<exists>f\<in>set fns. p = d @ [f] \<and> is_duplicate xe fns f)"
  by (auto simp: files_to_remove_def is_duplicate_def Let_def)

lemma mem_map_filter: "y \<in> set (map g (filter P xs)) \<longleftrightarrow> (\<exists>z\<in>set xs. P z \<and> g z = y)"
  by auto

lemma is_duplicate_iff:
  "is_duplicate xe fns f \<longleftrightarrow>
     (\<exists>z\<in>set fns. endswith (lower z) ''.zip'' \<and> name_stem z = name_stem f)
     \<and> lower (name_suffix f) \<noteq> ''.zip'' \<and> lower (name_suffix f) \<notin> set xe"
proof -
  have "name_stem f \<in> set (zip_basenames fns)
          \<longleftrightarrow> (\<exists>z\<in>set fns. endswith (lower z) ''.zip'' \<and> name_stem z = name_stem f)"
    unfolding zip_basenames_def by (rule mem_map_filter)
  then show ?thesis
    by (simp add: is_duplicate_def Let_def)
qed

lemma cleanup_live_exists:
  assumes "d \<in> fst ` set (os_walk fs src)" and "f \<in> set (filenames fs d)"
  shows "path_exists (fst (cleanup_unzipped_duplicates src False xe fs)) (d @ [f])
           \<longleftrightarrow> \<not> is_duplicate xe (filenames fs d) f"
proof -
  let ?M = "\<lambda>p. \<exists>w\<in>set (os_walk fs src). p \<in> set (files_to_remove xe (fst w) (snd (snd w)))"
  have fs': "fst (cleanup_unzipped_duplicates src False xe fs)
               = filter (\<lambda>e. \<not> (?M (fst e) \<and> is_file fs (fst e))) fs"
    by (simp only: fst_cleanup cleanup_dirs_live)
  have f: "is_file fs (d @ [f])" by (rule filenames_is_file [OF assms(2)])
  have "?M (d @ [f]) \<longleftrightarrow> is_duplicate xe (filenames fs d) f"
  proof
    assume "?M (d @ [f])"
    then obtain d' dns fns f' where w: "(d', dns, fns) \<in> set (os_walk fs src)"
      and m: "f' \<in> set fns" "d @ [f] = d' @ [f']" "is_duplicate xe fns f'"
      by (auto simp: files_to_remove_iff)
    from os_walk_entry [OF w] m show "is_duplicate xe (filenames fs d) f" by simp
  next
    assume dup: "is_duplicate xe (filenames fs d) f"
    from assms(1) obtain dns fns where w: "(d, dns, fns) \<in> set (os_walk fs src)" by auto
    from os_walk_entry [OF w] have "fns = filenames fs d" by simp
    with w dup assms(2) show "?M (d @ [f])"
      by (force simp: files_to_remove_iff)
  qed
  then show ?thesis
    using f is_file_filter [of "\<lambda>q. \<not> (?M q \<and> is_file fs q)" fs "d @ [f]"]
      is_dir_filter [of "\<lambda>q. \<not> (?M q \<and> is_file fs q)" fs "d @ [f]"]
    by (auto simp: fs' path_exists_def)
qed

text \<open>
  C5: in a live pass over the tree under the source directory, a file \<open>f\<close> listed in
  a walked directory \<open>d\<close> is gone afterwards exactly when the listing of \<open>d\<close> has a
  name ending in \<open>.zip\<close> (case-insensitively) with the same stem, the lower-cased
  extension of \<open>f\<close> is not \<open>.zip\<close>, and that extension is not in the
  excluded-extensions list. In particular, in a directory without any \<open>.zip\<close> name
  every file stays.
\<close>

theorem cleaner_deletes_exactly_duplicates:
  assumes "d \<in> fst ` set (os_walk fs source_dir)" and "f \<in> set (filenames fs d)"
  shows "is_file fs (d @ [f])
         \<and> (\<not> path_exists (fst (cleanup_unzipped_duplicates source_dir False excluded_exts fs))
                (d @ [f])
            \<longleftrightarrow> (\<exists>z\<in>set (filenames fs d). endswith (lower z) ''.zip''
                                            \<and> name_stem z = name_stem f)
                 \<and> lower (name_suffix f) \<noteq> ''.zip''
                 \<and> lower (name_suffix f) \<notin> set excluded_exts)
         \<and> ((\<forall>z\<in>set (filenames fs d). \<not> endswith (lower z) ''.zip'')
              \<longrightarrow> path_exists (fst (cleanup_unzipped_duplicates source_dir False excluded_exts fs))
                    (d @ [f]))"
  using cleanup_live_exists [OF assms, of excluded_exts] filenames_is_file [OF assms(2)]
  by (auto simp: is_duplicate_iff)

theorem cleaner_deletes_exactly_duplicates_witness:
  "[''roms'', ''images''] \<in> fst ` set (os_walk images_fs [''roms''])
   \<and> ''a.bin'' \<in> set (filenames images_fs [''roms'', ''images''])
   \<and> is_file images_fs [''roms'', ''images'', ''a.bin'']
   \<and> \<not> path_exists
          (fst (cleanup_unzipped_duplicates [''roms''] False [''.png'', ''.jpg''] images_fs))
          [''roms'', ''images'', ''a.bin'']
   \<and> (\<exists>z\<in>set (filenames images_fs [''roms'', ''images'']).
          endswith (lower z) ''.zip'' \<and> name_stem z = name_stem ''a.bin'')"
proof -
  have h1: "[''roms'', ''images''] \<in> fst ` set (os_walk images_fs [''roms''])"
    by code_simp
  have h2: "''a.bin'' \<in> set (filenames images_fs [''roms'', ''images''])"
    by code_simp
  have g: "\<not> path_exists
          (fst (cleanup_unzipped_duplicates [''roms''] False [''.png'', ''.jpg''] images_fs))
          ([''roms'', ''images''] @ [''a.bin''])"
    by code_simp
  from cleaner_deletes_exactly_duplicates [OF h1 h2, of "[''.png'', ''.jpg'']"] g h1 h2
  show ?thesis by simp
qed

text \<open>
  C10: the cleaner never looks at the excluded-directories list. In a live pass, a
  file in a walked directory that has a component named in that list is still
  deleted when it has a same-stem \<open>.zip\<close> sibling and an extension that is neither
  \<open>.zip\<close> nor excluded, although the grouper, given that very file, skips it and
  forms no group.
\<close>

theorem cleaner_ignores_excluded_dirs:
  assumes "d \<in> fst ` set (os_walk fs (rom_source_dir cfg))"
    and "f \<in> set (filenames fs d)"
    and "list_ex (\<lambda>part. lower part \<in> set (map lower (config_list (excluded_dirs cfg)))) d"
    and "\<exists>z\<in>set (filenames fs d). endswith (lower z) ''.zip'' \<and> name_stem z = name_stem f"
    and "lower (name_suffix f) \<noteq> ''.zip''"
    and "lower (name_suffix f) \<notin> set (map lower (config_list (excluded_extensions cfg)))"
  shows "\<not> path_exists
             (fst (cleanup_unzipped_duplicates (rom_source_dir cfg) False
                     (map lower (config_list (excluded_extensions cfg))) fs))
             (d @ [f])
         \<and> fst (scan_files fs (map lower (config_list (excluded_dirs cfg)))
                  (map lower (config_list (excluded_extensions cfg))) [d @ [f]] []) = []"
proof -
  have "is_duplicate (map lower (config_list (excluded_extensions cfg))) (filenames fs d) f"
    using assms(4-6) by (simp add: is_duplicate_iff)
  then have gone: "\<not> path_exists
             (fst (cleanup_unzipped_duplicates (rom_source_dir cfg) False
                     (map lower (config_list (excluded_extensions cfg))) fs))
             (d @ [f])"
    using cleanup_live_exists [OF assms(1,2)] by simp
  have "in_excluded_dir (map lower (config_list (excluded_dirs cfg))) (d @ [f])"
    using assms(3) by (simp add: in_excluded_dir_def path_parent_def)
  then have "fst (scan_files fs (map lower (config_list (excluded_dirs cfg)))
                  (map lower (config_list (excluded_extensions cfg))) [d @ [f]] []) = []"
    by (simp split: prod.splits)
  with gone show ?thesis by simp
qed

theorem cleaner_ignores_excluded_dirs_witness:
  "[''roms'', ''images''] \<in> fst ` set (os_walk images_fs (rom_source_dir CONFIG_DEFAULTS))
   \<and> ''a.bin'' \<in> set (filenames images_fs [''roms'', ''images''])
   \<and> list_ex (\<lambda>part. lower part \<in> set (map lower (config_list (excluded_dirs CONFIG_DEFAULTS))))
        [''roms'', ''images'']
   \<and> (\<exists>z\<in>set (filenames images_fs [''roms'', ''images'']).
          endswith (lower z) ''.zip'' \<and> name_stem z = name_stem ''a.bin'')
   \<and> lower (name_suffix ''a.bin'') \<noteq> ''.zip''
   \<and> lower (name_suffix ''a.bin'')
        \<notin> set (map lower (config_list (excluded_extensions CONFIG_DEFAULTS)))
   \<and> \<not> path_exists
          (fst (cleanup_unzipped_duplicates (rom_source_dir CONFIG_DEFAULTS) False
                  (map lower (config_list (excluded_extensions CONFIG_DEFAULTS))) images_fs))
          ([''roms'', ''images''] @ [''a.bin''])
   \<and> fst (scan_files images_fs (map lower (config_list (excluded_dirs CONFIG_DEFAULTS)))
             (map lower (config_list (excluded_extensions CONFIG_DEFAULTS)))
             [[''roms'', ''images''] @ [''a.bin'']] []) = []"
proof -
  have h1: "[''roms'', ''images'']
              \<in> fst ` set (os_walk images_fs (rom_source_dir CONFIG_DEFAULTS))"
    by code_simp
  have h2: "''a.bin'' \<in> set (filenames images_fs [''roms'', ''images''])"
    by code_simp
  have h3: "list_ex (\<lambda>part. lower part
                       \<in> set (map lower (config_list (excluded_dirs CONFIG_DEFAULTS))))
              [''roms'', ''images'']"
    by code_simp
  have h4: "\<exists>z\<in>set (filenames images_fs [''roms'', ''images'']).
              endswith (lower z) ''.zip'' \<and> name_stem z = name_stem ''a.bin''"
    by code_simp
  have h5: "lower (name_suffix ''a.bin'') \<noteq> ''.zip''"
    by code_simp
  have h6: "lower (name_suffix ''a.bin'')
              \<notin> set (map lower (config_list (excluded_extensions CONFIG_DEFAULTS)))"
    by code_simp
  from cleaner_ignores_excluded_dirs [OF h1 h2 h3 h4 h5 h6] h1 h2 h3 h4 h5 h6
  show ?thesis by blast
qed

section \<open>Dry run\<close>

text \<open>
  What a dry run does keep: the cleaner, the relocator and the group loop leave the
  file system alone, so a dry run of \<open>process_roms\<close> ends on the state it started on,
  extended by directories only (those the two \<open>mkdir\<close> calls create).
\<close>

lemma remove_files_dry: "fst (remove_files True ps fs) = fs"
  by (induction ps) (auto split: prod.splits)

lemma cleanup_dirs_dry: "fst (cleanup_dirs True xe ws fs) = fs"
proof (induction ws)
  case Nil
  show ?case by simp
next
  case (Cons w ws)
  obtain d dns fns where "w = (d, dns, fns)" by (cases w) auto
  with Cons show ?case
    by (simp only: fst_cleanup_dirs_Cons remove_files_dry)
qed

lemma handle_file_move_dry: "fst (handle_file_move s d True ar fs) = fs"
  by (simp add: handle_file_move_def Let_def)

lemma archive_rest_dry: "fst (archive_rest arch best True ps fs) = fs"
proof (induction ps)
  case Nil
  show ?case by simp
next
  case (Cons p ps)
  then show ?case
    using handle_file_move_dry [of p "arch @ [path_name p]" True fs]
    by (auto split: prod.splits)
qed

lemma process_group_dry: "fst (process_group cfg True g fs) = fs"
proof -
  have a: "handle_file_move s d True ar fs = (x, l) \<Longrightarrow> x = fs" for s d ar x l
    using handle_file_move_dry [of s d ar fs] by simp
  have b: "archive_rest arch best True ps fs = (x, l) \<Longrightarrow> x = fs" for arch best ps x l
    using archive_rest_dry [of arch best ps fs] by simp
  show ?thesis
    by (auto simp: process_group_def Let_def simp del: archive_rest.simps
             split: list.splits option.splits prod.splits dest!: a b)
qed

lemma process_groups_dry: "fst (process_groups cfg True gs fs) = fs"
proof (induction gs)
  case Nil
  show ?case by simp
next
  case (Cons g gs)
  then show ?case
    using process_group_dry [of cfg g fs] by (auto split: prod.splits)
qed

lemma mkdir_appends_dirs:
  "mkdir fs p = Inr fs' \<Longrightarrow> \<exists>ds. fs' = fs @ map (\<lambda>q. (q, Dir)) ds"
proof (induction fs p arbitrary: fs' rule: mkdir.induct)
  case (1 fs p)
  show ?case
  proof (cases "is_dir fs p")
    case True
    with "1.prems" have "fs' = fs" by (subst (asm) mkdir.simps) simp
    then show ?thesis by (intro exI [of _ "[]"]) simp
  next
    case False
    with "1.prems" obtain fs1 where m: "mkdir fs (path_parent p) = Inr fs1"
      and f: "\<not> is_file fs p" and fs': "fs' = fs1 @ [(p, Dir)]"
      by (subst (asm) mkdir.simps) (auto split: if_splits sum.splits)
    from "1.IH" [OF False f m] obtain ds where "fs1 = fs @ map (\<lambda>q. (q, Dir)) ds" by blast
    with fs' have "fs' = fs @ map (\<lambda>q. (q, Dir)) (ds @ [p])" by simp
    then show ?thesis by blast
  qed
qed

lemma dry_run_adds_directories_only:
  "\<exists>ds. fst (process_roms cfg True fs) = fs @ map (\<lambda>q. (q, Dir)) ds"
proof -
  have e: "\<exists>ds. fs = fs @ map (\<lambda>q. (q, Dir)) ds" by (intro exI [of _ "[]"]) simp
  have c: "cleanup_unzipped_duplicates s True xe x = (y, l) \<Longrightarrow> y = x" for s xe x y l
    using fst_cleanup [of s True xe x] cleanup_dirs_dry [of xe "os_walk x s" x] by simp
  have g: "process_groups cfg True gs x = (y, l) \<Longrightarrow> y = x" for gs x y l
    using process_groups_dry [of cfg gs x] by simp
  have two: "mkdir fs p1 = Inr x \<Longrightarrow> mkdir x p2 = Inr y
               \<Longrightarrow> \<exists>ds. y = fs @ map (\<lambda>q. (q, Dir)) ds" for p1 p2 x y
  proof -
    assume m: "mkdir fs p1 = Inr x" "mkdir x p2 = Inr y"
    from mkdir_appends_dirs [OF m(1)] obtain d1 where "x = fs @ map (\<lambda>q. (q, Dir)) d1" ..
    moreover from mkdir_appends_dirs [OF m(2)] obtain d2
      where "y = x @ map (\<lambda>q. (q, Dir)) d2" ..
    ultimately have "y = fs @ map (\<lambda>q. (q, Dir)) (d1 @ d2)" by simp
    then show ?thesis by blast
  qed
  show ?thesis
    using e by (auto simp: process_roms_def Let_def split: sum.splits prod.splits
                     dest!: c g dest: mkdir_appends_dirs two)
qed

text \<open>
  C1 (the code at the failing input): a dry run on a tree that has the source
  directory but neither the destination nor the archive directory creates both.
\<close>

theorem dry_run_creates_directories:
  "fst (process_roms CONFIG_DEFAULTS True [([''roms''], Dir)])
     = [([''roms''], Dir), ([''sorted''], Dir), ([''archive''], Dir)]"
  by code_simp

section \<open>The end-to-end scenario\<close>



end
